theory Spec2Isabelle
  imports Complex_Main "HOL-Library.Multiset"
begin

section \<open>Strings and characters\<close>

text \<open>
  A JavaScript string is modelled by the list of its UTF-8 bytes (\<open>string\<close>).
  Emptiness, concatenation and splitting at the line feed mean the same on the bytes as
  on the code units of the source.
\<close>

definition dquote :: char where
  "dquote = CHR 0x22"

definition backslash :: char where
  "backslash = CHR 0x5C"

definition code :: "char \<Rightarrow> nat" where
  "code c = of_char c"

definition is_digit :: "char \<Rightarrow> bool" where
  "is_digit c = (48 \<le> code c \<and> code c \<le> 57)"

definition digit_val :: "char \<Rightarrow> nat" where
  "digit_val c = code c - 48"

definition digit_char :: "nat \<Rightarrow> char" where
  "digit_char n = char_of (48 + n)"

definition hex_digits_lower :: string where
  "hex_digits_lower = ''0123456789abcdef''"

definition hex_digits_upper :: string where
  "hex_digits_upper = ''0123456789ABCDEF''"

definition hex_val :: "char \<Rightarrow> nat option" where
  "hex_val c =
     (if 48 \<le> code c \<and> code c \<le> 57 then Some (code c - 48)
      else if 97 \<le> code c \<and> code c \<le> 102 then Some (code c - 87)
      else if 65 \<le> code c \<and> code c \<le> 70 then Some (code c - 55)
      else None)"

section \<open>JSON values\<close>

text \<open>
  The values the client stores and reads back: null, booleans, numbers, strings,
  sequences and mappings. The type of numbers is a parameter: the encoder is modelled
  on integers, the decoder reads every JSON number literal as the rational it denotes.
  An object is the list of its properties in enumeration order.
\<close>

datatype 'n json =
    JNull
  | JBool bool
  | JNumber 'n
  | JString string
  | JArray "'n json list"
  | JObject "(string \<times> 'n json) list"

subsection \<open>JSON.stringify\<close>

function show_nat :: "nat \<Rightarrow> string" where
  "show_nat n = (if n < 10 then [digit_char n] else show_nat (n div 10) @ [digit_char (n mod 10)])"
  by pat_completeness auto
termination
  by (relation "measure (\<lambda>n. n)") auto

declare show_nat.simps [simp del]

definition show_int :: "int \<Rightarrow> string" where
  "show_int i = (if i < 0 then CHR ''-'' # show_nat (nat (- i)) else show_nat (nat i))"

text \<open>
  QuoteJSONString: the two-character escapes, \<open>\u00XX\<close> with lower-case hexadecimal
  digits for the other control characters, every other character as it is.
\<close>

definition escape_char :: "char \<Rightarrow> string" where
  "escape_char c =
     (if code c = 8 then [backslash, CHR ''b'']
      else if code c = 9 then [backslash, CHR ''t'']
      else if code c = 10 then [backslash, CHR ''n'']
      else if code c = 12 then [backslash, CHR ''f'']
      else if code c = 13 then [backslash, CHR ''r'']
      else if c = dquote then [backslash, dquote]
      else if c = backslash then [backslash, backslash]
      else if code c < 32 then
        [backslash, CHR ''u'', CHR ''0'', CHR ''0'',
         hex_digits_lower ! (code c div 16), hex_digits_lower ! (code c mod 16)]
      else [c])"

definition QuoteJSONString :: "string \<Rightarrow> string" where
  "QuoteJSONString s = dquote # concat (map escape_char s) @ [dquote]"

fun JSON_stringify :: "int json \<Rightarrow> string"
  and stringify_elements :: "int json list \<Rightarrow> string"
  and stringify_members :: "(string \<times> int json) list \<Rightarrow> string"
where
  "JSON_stringify JNull = ''null''"
| "JSON_stringify (JBool b) = (if b then ''true'' else ''false'')"
| "JSON_stringify (JNumber i) = show_int i"
| "JSON_stringify (JString s) = QuoteJSONString s"
| "JSON_stringify (JArray vs) = CHR ''['' # stringify_elements vs @ '']''"
| "JSON_stringify (JObject ps) = CHR ''{'' # stringify_members ps @ ''}''"
| "stringify_elements [] = []"
| "stringify_elements [v] = JSON_stringify v"
| "stringify_elements (v # w # vs) = JSON_stringify v @ CHR '','' # stringify_elements (w # vs)"
| "stringify_members [] = []"
| "stringify_members [(k, v)] = QuoteJSONString k @ CHR '':'' # JSON_stringify v"
| "stringify_members ((k, v) # p # ps) =
     QuoteJSONString k @ CHR '':'' # JSON_stringify v @ CHR '','' # stringify_members (p # ps)"

subsection \<open>JSON.parse\<close>

definition is_ws :: "char \<Rightarrow> bool" where
  "is_ws c = (code c = 32 \<or> code c = 9 \<or> code c = 10 \<or> code c = 13)"

definition skip_ws :: "string \<Rightarrow> string" where
  "skip_ws s = dropWhile is_ws s"

definition read_nat :: "string \<Rightarrow> nat" where
  "read_nat ds = foldl (\<lambda>a c. 10 * a + digit_val c) 0 ds"

text \<open>The integer part of a number: a single \<open>0\<close>, or a run of digits that starts with a non-zero one.\<close>

definition int_part :: "string \<Rightarrow> (string \<times> string) option" where
  "int_part s =
     (case s of
        [] \<Rightarrow> None
      | c # r \<Rightarrow>
          if c = CHR ''0'' then Some ([c], r)
          else if is_digit c then Some (takeWhile is_digit s, dropWhile is_digit s)
          else None)"

definition frac_part :: "string \<Rightarrow> (string \<times> string) option" where
  "frac_part s =
     (case s of
        [] \<Rightarrow> Some ([], s)
      | c # r \<Rightarrow>
          if c = CHR ''.'' then
            (if takeWhile is_digit r = [] then None
             else Some (takeWhile is_digit r, dropWhile is_digit r))
          else Some ([], s))"

definition exp_sign :: "string \<Rightarrow> int \<times> string" where
  "exp_sign s =
     (case s of
        [] \<Rightarrow> (1, s)
      | c # r \<Rightarrow> if c = CHR ''+'' then (1, r) else if c = CHR ''-'' then (- 1, r) else (1, s))"

definition exp_part :: "string \<Rightarrow> (int \<times> string) option" where
  "exp_part s =
     (case s of
        [] \<Rightarrow> Some (0, s)
      | c # r \<Rightarrow>
          if c = CHR ''e'' \<or> c = CHR ''E'' then
            (case exp_sign r of
               (sg, r1) \<Rightarrow>
                 if takeWhile is_digit r1 = [] then None
                 else Some (sg * int (read_nat (takeWhile is_digit r1)), dropWhile is_digit r1))
          else Some (0, s))"

definition scale10 :: "int \<Rightarrow> int \<Rightarrow> rat" where
  "scale10 m e = (if 0 \<le> e then of_int (m * 10 ^ nat e) else of_int m / of_int (10 ^ nat (- e)))"

definition unsigned_number :: "string \<Rightarrow> (rat \<times> string) option" where
  "unsigned_number s =
     (case int_part s of
        None \<Rightarrow> None
      | Some (ip, s1) \<Rightarrow>
          (case frac_part s1 of
             None \<Rightarrow> None
           | Some (fd, s2) \<Rightarrow>
               (case exp_part s2 of
                  None \<Rightarrow> None
                | Some (ex, s3) \<Rightarrow>
                    Some (scale10 (int (read_nat (ip @ fd))) (ex - int (length fd)), s3))))"

definition parse_number :: "string \<Rightarrow> (rat \<times> string) option" where
  "parse_number s =
     (case s of
        [] \<Rightarrow> None
      | c # r \<Rightarrow>
          if c = CHR ''-'' then map_option (apfst uminus) (unsigned_number r)
          else unsigned_number s)"

text \<open>
  The UTF-8 bytes of the code unit an escape \<open>\uXXXX\<close> names. Each escaped code unit is
  stored on its own.
\<close>

definition utf8_of_unit :: "nat \<Rightarrow> string" where
  "utf8_of_unit u =
     (if u < 128 then [char_of u]
      else if u < 2048 then [char_of (192 + u div 64), char_of (128 + u mod 64)]
      else [char_of (224 + u div 4096), char_of (128 + (u div 64) mod 64), char_of (128 + u mod 64)])"

definition hex4 :: "char \<Rightarrow> char \<Rightarrow> char \<Rightarrow> char \<Rightarrow> nat option" where
  "hex4 a b c d =
     (case (hex_val a, hex_val b, hex_val c, hex_val d) of
        (Some x, Some y, Some z, Some w) \<Rightarrow> Some (((x * 16 + y) * 16 + z) * 16 + w)
      | _ \<Rightarrow> None)"

definition simple_escape :: "char \<Rightarrow> char option" where
  "simple_escape e =
     (if e = dquote then Some dquote
      else if e = backslash then Some backslash
      else if e = CHR ''/'' then Some CHR ''/''
      else if e = CHR ''b'' then Some (CHR 0x08)
      else if e = CHR ''f'' then Some (CHR 0x0C)
      else if e = CHR ''n'' then Some (CHR 0x0A)
      else if e = CHR ''r'' then Some (CHR 0x0D)
      else if e = CHR ''t'' then Some (CHR 0x09)
      else None)"

text \<open>The characters of a string literal after its opening quote, up to the closing one.\<close>

fun parse_chars :: "string \<Rightarrow> (string \<times> string) option" where
  "parse_chars [] = None"
| "parse_chars (c # cs) =
     (if c = dquote then Some ([], cs)
      else if c = backslash then
        (case cs of
           [] \<Rightarrow> None
         | e # r \<Rightarrow>
             if e = CHR ''u'' then
               (case r of
                  a # b # x # y # r' \<Rightarrow>
                    (case hex4 a b x y of
                       None \<Rightarrow> None
                     | Some u \<Rightarrow> map_option (apfst ((@) (utf8_of_unit u))) (parse_chars r'))
                | _ \<Rightarrow> None)
             else
               (case simple_escape e of
                  None \<Rightarrow> None
                | Some d \<Rightarrow> map_option (apfst ((#) d)) (parse_chars r)))
      else if code c < 32 then None
      else map_option (apfst ((#) c)) (parse_chars cs))"

text \<open>Setting a property of an object: an existing key keeps its place and takes the new value.\<close>

fun put_property :: "string \<Rightarrow> 'v \<Rightarrow> (string \<times> 'v) list \<Rightarrow> (string \<times> 'v) list" where
  "put_property k v [] = [(k, v)]"
| "put_property k v ((k', v') # ps) =
     (if k' = k then (k, v) # ps else (k', v') # put_property k v ps)"

definition object_of :: "(string \<times> 'v) list \<Rightarrow> (string \<times> 'v) list" where
  "object_of ms = foldl (\<lambda>obj (k, v). put_property k v obj) [] ms"

fun parse_value :: "nat \<Rightarrow> string \<Rightarrow> (rat json \<times> string) option"
  and parse_elements :: "nat \<Rightarrow> string \<Rightarrow> (rat json list \<times> string) option"
  and parse_members :: "nat \<Rightarrow> string \<Rightarrow> ((string \<times> rat json) list \<times> string) option"
where
  "parse_value 0 s = None"
| "parse_value (Suc n) s =
     (case skip_ws s of
        [] \<Rightarrow> None
      | c # r \<Rightarrow>
          if c = CHR ''['' then
            (case skip_ws r of
               [] \<Rightarrow> None
             | c' # r' \<Rightarrow>
                 if c' = CHR '']'' then Some (JArray [], r')
                 else map_option (apfst JArray) (parse_elements n r))
          else if c = CHR ''{'' then
            (case skip_ws r of
               [] \<Rightarrow> None
             | c' # r' \<Rightarrow>
                 if c' = CHR ''}'' then Some (JObject [], r')
                 else map_option (apfst (\<lambda>ms. JObject (object_of ms))) (parse_members n r))
          else if c = dquote then map_option (apfst JString) (parse_chars r)
          else if c = CHR ''-'' \<or> is_digit c then map_option (apfst JNumber) (parse_number (c # r))
          else if take 4 (c # r) = ''true'' then Some (JBool True, drop 4 (c # r))
          else if take 5 (c # r) = ''false'' then Some (JBool False, drop 5 (c # r))
          else if take 4 (c # r) = ''null'' then Some (JNull, drop 4 (c # r))
          else None)"
| "parse_elements 0 s = None"
| "parse_elements (Suc n) s =
     (case parse_value (Suc n) s of
        None \<Rightarrow> None
      | Some (v, r) \<Rightarrow>
          (case skip_ws r of
             [] \<Rightarrow> None
           | c # r' \<Rightarrow>
               if c = CHR '','' then map_option (apfst ((#) v)) (parse_elements n r')
               else if c = CHR '']'' then Some ([v], r')
               else None))"
| "parse_members 0 s = None"
| "parse_members (Suc n) s =
     (case skip_ws s of
        [] \<Rightarrow> None
      | q # r0 \<Rightarrow>
          if q \<noteq> dquote then None
          else
            (case parse_chars r0 of
               None \<Rightarrow> None
             | Some (k, r1) \<Rightarrow>
                 (case skip_ws r1 of
                    [] \<Rightarrow> None
                  | c # r2 \<Rightarrow>
                      if c \<noteq> CHR '':'' then None
                      else
                        (case parse_value (Suc n) r2 of
                           None \<Rightarrow> None
                         | Some (v, r3) \<Rightarrow>
                             (case skip_ws r3 of
                                [] \<Rightarrow> None
                              | d # r4 \<Rightarrow>
                                  if d = CHR '','' then
                                    map_option (apfst ((#) (k, v))) (parse_members n r4)
                                  else if d = CHR ''}'' then Some ([(k, v)], r4)
                                  else None)))))"

text \<open>
  JSON.parse: one value with white space around it and nothing else; \<open>None\<close> stands for the
  SyntaxError it throws. The fuel is the length of the text, which is enough
  (\<open>JSON_parse_adequate\<close>).
\<close>

definition JSON_parse :: "string \<Rightarrow> rat json option" where
  "JSON_parse s =
     (case parse_value (Suc (length s)) s of
        None \<Rightarrow> None
      | Some (v, r) \<Rightarrow> if skip_ws r = [] then Some v else None)"

section \<open>URI components\<close>

text \<open>
  encodeURIComponent: the bytes of the UTF-8 encoding, each written \<open>%XX\<close> with upper-case
  digits unless it is a letter, a digit or one of \<open>- _ . ! ~ * ' ( )\<close>.
\<close>

definition uri_unreserved :: "char \<Rightarrow> bool" where
  "uri_unreserved c =
     ((65 \<le> code c \<and> code c \<le> 90) \<or> (97 \<le> code c \<and> code c \<le> 122) \<or>
      (48 \<le> code c \<and> code c \<le> 57) \<or>
      c \<in> set [CHR ''-'', CHR ''_'', CHR ''.'', CHR ''!'', CHR ''~'', CHR ''*'', CHR 0x27,
                 CHR ''('', CHR '')''])"

definition encode_char :: "char \<Rightarrow> string" where
  "encode_char c =
     (if uri_unreserved c then [c]
      else [CHR ''%'', hex_digits_upper ! (code c div 16), hex_digits_upper ! (code c mod 16)])"

definition encodeURIComponent :: "string \<Rightarrow> string" where
  "encodeURIComponent s = concat (map encode_char s)"

text \<open>
  decodeURIComponent: every \<open>%XX\<close> is replaced by its byte; an escape that is cut short or
  has a digit that is not hexadecimal, and escaped bytes that are not the UTF-8 encoding
  of a code point, raise URIError (\<open>None\<close>).
\<close>

definition hex2 :: "char \<Rightarrow> char \<Rightarrow> nat option" where
  "hex2 a b =
     (case (hex_val a, hex_val b) of (Some x, Some y) \<Rightarrow> Some (16 * x + y) | _ \<Rightarrow> None)"

text \<open>The \<open>n\<close> escapes that continue a multi-byte character: each \<open>%XX\<close> with a byte \<open>10xxxxxx\<close>.\<close>

fun continuation :: "nat \<Rightarrow> string \<Rightarrow> nat list option" where
  "continuation 0 s = Some []"
| "continuation (Suc n) (p # a # b # r) =
     (if p = CHR ''%'' then
        (case hex2 a b of
           None \<Rightarrow> None
         | Some B \<Rightarrow> if B div 64 = 2 then map_option ((#) B) (continuation n r) else None)
      else None)"
| "continuation (Suc n) s = None"

text \<open>The number of bytes a leading byte announces; 0 for a byte that cannot lead.\<close>

definition utf8_length :: "nat \<Rightarrow> nat" where
  "utf8_length b =
     (if b < 192 then 0 else if b < 224 then 2 else if b < 240 then 3
      else if b < 248 then 4 else 0)"

text \<open>
  Whether a leading byte and its continuation bytes encode a code point: no overlong
  form, no surrogate, nothing beyond U+10FFFF.
\<close>

definition utf8_valid :: "nat \<Rightarrow> nat list \<Rightarrow> bool" where
  "utf8_valid b bs =
     (case bs of
        [] \<Rightarrow> False
      | b1 # _ \<Rightarrow>
          if b < 224 then 194 \<le> b
          else if b = 224 then 160 \<le> b1
          else if b = 237 then b1 < 160
          else if b < 240 then True
          else if b = 240 then 144 \<le> b1
          else if b < 244 then True
          else if b = 244 then b1 < 144
          else False)"

fun decodeURIComponent :: "string \<Rightarrow> string option" where
  "decodeURIComponent [] = Some []"
| "decodeURIComponent (c # cs) =
     (if c \<noteq> CHR ''%'' then map_option ((#) c) (decodeURIComponent cs)
      else
        (case cs of
           a # b # r \<Rightarrow>
             (case hex2 a b of
                None \<Rightarrow> None
              | Some B \<Rightarrow>
                  if B < 128 then map_option ((#) (char_of B)) (decodeURIComponent r)
                  else if utf8_length B = 0 then None
                  else
                    (case continuation (utf8_length B - 1) r of
                       None \<Rightarrow> None
                     | Some bs \<Rightarrow>
                         if utf8_valid B bs then
                           map_option ((@) (map char_of (B # bs)))
                             (decodeURIComponent (drop (3 * (utf8_length B - 1)) r))
                         else None))
         | _ \<Rightarrow> None))"

text \<open>\<open>t.split("\n")\<close>: the segments between line feeds; the empty text has one, empty, segment.\<close>

fun split_nl :: "string \<Rightarrow> string list" where
  "split_nl [] = [[]]"
| "split_nl (c # cs) =
     (if c = CHR 0x0A then [] # split_nl cs
      else (case split_nl cs of [] \<Rightarrow> [[c]] | x # xs \<Rightarrow> (c # x) # xs))"

section \<open>The transport\<close>

text \<open>
  \<open>fetch\<close> is the environment of the client. A request is sent when \<open>fetch\<close> is called;
  its promise settles later, rejected with an error or fulfilled with a response. The
  log lists what has happened so far, as the client has observed it. The environment
  decides the outcome of a request from the log, and which of the requests in flight
  settles next.
\<close>

datatype error = TransportError string | SyntaxError string | URIError

datatype http_method = GET | POST | DELETE

record request =
  req_method :: http_method
  req_url :: string
  req_headers :: "(string \<times> string) list"
  req_body :: "string option"

record response =
  resp_status :: nat
  resp_text :: "error + string"

datatype event = Sent request | Settled request "error + response"

record env =
  respond :: "event list \<Rightarrow> request \<Rightarrow> error + response"
  pick :: "event list \<Rightarrow> nat"

text \<open>\<open>await fetch(...)\<close>: the request is sent and nothing else happens until it settles.\<close>

definition fetch ::
  "env \<Rightarrow> request \<Rightarrow> event list \<Rightarrow> (error + response) \<times> event list" where
  "fetch e rq tr =
     (let out = respond e (tr @ [Sent rq]) rq in (out, tr @ [Sent rq, Settled rq out]))"

section \<open>The client\<close>

text \<open>
  The one field of the class. The type of the source says it is a string; at run time it
  is \<open>undefined\<close> (\<open>None\<close>) when the constructor found no URL.
\<close>

record Client =
  key :: "string option"

text \<open>
  \<open>if (key) this.key = key; else this.key = Deno.env.get("REPLIT_DB_URL")!\<close>. The
  argument is absent or a string, and the empty string is falsy. The variables of the
  process are a map; the \<open>!\<close> of the source is erased when the program is compiled.
\<close>

definition constructor :: "string option \<Rightarrow> (string \<rightharpoonup> string) \<Rightarrow> Client" where
  "constructor k vars =
     (if k \<noteq> None \<and> k \<noteq> Some [] then \<lparr>key = k\<rparr>
      else \<lparr>key = vars ''REPLIT_DB_URL''\<rparr>)"

text \<open>\<open>this.key\<close> in a string concatenation.\<close>

definition endpoint :: "Client \<Rightarrow> string" where
  "endpoint c = (case key c of None \<Rightarrow> ''undefined'' | Some u \<Rightarrow> u)"

subsection \<open>get\<close>

record options =
  raw :: "bool option"

text \<open>\<open>options && options.raw\<close>.\<close>

definition raw_mode :: "options option \<Rightarrow> bool" where
  "raw_mode opts = (case opts of None \<Rightarrow> False | Some opt \<Rightarrow> raw opt = Some True)"

definition get_request :: "Client \<Rightarrow> string \<Rightarrow> request" where
  "get_request c k =
     \<lparr>req_method = GET, req_url = endpoint c @ ''/'' @ k, req_headers = [], req_body = None\<rparr>"

definition parse_failure :: "string \<Rightarrow> error" where
  "parse_failure k =
     SyntaxError (''Failed to parse value of '' @ k @
       '', try passing a raw option to get the raw value'')"

text \<open>The function given to the second \<open>then\<close>, lines 25 to 49.\<close>

definition get_then :: "string \<Rightarrow> options option \<Rightarrow> string \<Rightarrow> error + rat json" where
  "get_then k opts strValue =
     (if raw_mode opts then Inr (JString strValue)
      else if strValue = [] then Inr JNull
      else
        (case JSON_parse strValue of
           None \<Rightarrow> Inl (parse_failure k)
         | Some v \<Rightarrow> if v = JNull then Inr JNull else Inr v))"

definition get ::
  "env \<Rightarrow> Client \<Rightarrow> string \<Rightarrow> options option \<Rightarrow> event list \<Rightarrow>
     (error + rat json) \<times> event list" where
  "get e c k opts tr =
     (case fetch e (get_request c k) tr of
        (Inl err, tr') \<Rightarrow> (Inl err, tr')
      | (Inr r, tr') \<Rightarrow>
          (case resp_text r of
             Inl err \<Rightarrow> (Inl err, tr')
           | Inr strValue \<Rightarrow> (get_then k opts strValue, tr')))"

subsection \<open>set\<close>

definition set_request :: "Client \<Rightarrow> string \<Rightarrow> int json \<Rightarrow> request" where
  "set_request c k v =
     \<lparr>req_method = POST, req_url = endpoint c,
      req_headers = [(''Content-Type'', ''application/x-www-form-urlencoded'')],
      req_body = Some (k @ ''='' @ JSON_stringify v)\<rparr>"

definition set_key ::
  "env \<Rightarrow> Client \<Rightarrow> string \<Rightarrow> int json \<Rightarrow> event list \<Rightarrow> (error + Client) \<times> event list" where
  "set_key e c k v tr =
     (case fetch e (set_request c k v) tr of
        (Inl err, tr') \<Rightarrow> (Inl err, tr')
      | (Inr r, tr') \<Rightarrow> (Inr c, tr'))"

subsection \<open>delete\<close>

definition delete_request :: "Client \<Rightarrow> string \<Rightarrow> request" where
  "delete_request c k =
     \<lparr>req_method = DELETE, req_url = endpoint c @ ''/'' @ k, req_headers = [], req_body = None\<rparr>"

text \<open>What the promise of \<open>delete\<close> settles to, from what its \<open>fetch\<close> settled to.\<close>

definition delete_result :: "Client \<Rightarrow> error + response \<Rightarrow> error + Client" where
  "delete_result c out = (case out of Inl err \<Rightarrow> Inl err | Inr r \<Rightarrow> Inr c)"

definition delete ::
  "env \<Rightarrow> Client \<Rightarrow> string \<Rightarrow> event list \<Rightarrow> (error + Client) \<times> event list" where
  "delete e c k tr =
     (case fetch e (delete_request c k) tr of (out, tr') \<Rightarrow> (delete_result c out, tr'))"

subsection \<open>list\<close>

definition list_request :: "Client \<Rightarrow> string \<Rightarrow> request" where
  "list_request c prefix =
     \<lparr>req_method = GET,
      req_url = endpoint c @ ''?encode=true&prefix='' @ encodeURIComponent prefix,
      req_headers = [], req_body = None\<rparr>"

text \<open>\<open>segments.map(decodeURIComponent)\<close>: the first segment that cannot be decoded raises.\<close>

fun map_decodeURIComponent :: "string list \<Rightarrow> error + string list" where
  "map_decodeURIComponent [] = Inr []"
| "map_decodeURIComponent (x # xs) =
     (case decodeURIComponent x of
        None \<Rightarrow> Inl URIError
      | Some y \<Rightarrow>
          (case map_decodeURIComponent xs of Inl err \<Rightarrow> Inl err | Inr ys \<Rightarrow> Inr (y # ys)))"

definition list_then :: "string \<Rightarrow> error + string list" where
  "list_then t = (if length t = 0 then Inr [] else map_decodeURIComponent (split_nl t))"

definition list ::
  "env \<Rightarrow> Client \<Rightarrow> string \<Rightarrow> event list \<Rightarrow> (error + string list) \<times> event list" where
  "list e c prefix tr =
     (case fetch e (list_request c prefix) tr of
        (Inl err, tr') \<Rightarrow> (Inl err, tr')
      | (Inr r, tr') \<Rightarrow>
          (case resp_text r of
             Inl err \<Rightarrow> (Inl err, tr')
           | Inr t \<Rightarrow> (list_then t, tr')))"

subsection \<open>Promise.all over deletes in flight\<close>

text \<open>
  \<open>await Promise.all(promises)\<close>, where every promise is a \<open>delete\<close> whose request has
  been sent. The environment picks the request that settles next. The first promise
  to be rejected rejects the whole at once, whatever is still in flight; the whole is
  fulfilled when the last one is.
\<close>

function Promise_all ::
  "env \<Rightarrow> Client \<Rightarrow> request list \<Rightarrow> event list \<Rightarrow> (error + unit) \<times> event list" where
  "Promise_all e c [] tr = (Inr (), tr)"
| "Promise_all e c (p # ps) tr =
     (let i = pick e tr mod length (p # ps);
          rq = (p # ps) ! i;
          out = respond e tr rq;
          tr' = tr @ [Settled rq out]
      in case delete_result c out of
           Inl err \<Rightarrow> (Inl err, tr')
         | Inr _ \<Rightarrow> Promise_all e c (take i (p # ps) @ drop (Suc i) (p # ps)) tr')"
  by pat_completeness auto
termination
  by (relation "measure (\<lambda>(e, c, pending, tr). length pending)") auto

subsection \<open>empty, getAll, setAll, deleteMultiple\<close>

text \<open>
  Calling \<open>this.delete(key)\<close> without awaiting it runs \<open>delete\<close> up to its \<open>await\<close>: the
  request is sent. The loop sends one request for each key, in order.
\<close>

definition empty :: "env \<Rightarrow> Client \<Rightarrow> event list \<Rightarrow> (error + Client) \<times> event list" where
  "empty e c tr =
     (case list e c [] tr of
        (Inl err, tr') \<Rightarrow> (Inl err, tr')
      | (Inr keys, tr') \<Rightarrow>
          (case Promise_all e c (map (delete_request c) keys)
                  (tr' @ map (\<lambda>k. Sent (delete_request c k)) keys) of
             (Inl err, tr'') \<Rightarrow> (Inl err, tr'')
           | (Inr _, tr'') \<Rightarrow> (Inr c, tr'')))"



text \<open>
  \<open>for (const key in obj)\<close> visits each property of the object once, in enumeration
  order, and \<open>obj[key]\<close> is the value of that property.
\<close>

fun setAll ::
  "env \<Rightarrow> Client \<Rightarrow> (string \<times> int json) list \<Rightarrow> event list \<Rightarrow> (error + Client) \<times> event list" where
  "setAll e c [] tr = (Inr c, tr)"
| "setAll e c ((k, v) # obj) tr =
     (case set_key e c k v tr of
        (Inl err, tr') \<Rightarrow> (Inl err, tr')
      | (Inr _, tr') \<Rightarrow> setAll e c obj tr')"

definition deleteMultiple ::
  "env \<Rightarrow> Client \<Rightarrow> string list \<Rightarrow> event list \<Rightarrow> (error + Client) \<times> event list" where
  "deleteMultiple e c args tr =
     (case Promise_all e c (map (delete_request c) args)
             (tr @ map (\<lambda>arg. Sent (delete_request c arg)) args) of
        (Inl err, tr') \<Rightarrow> (Inl err, tr')
      | (Inr _, tr') \<Rightarrow> (Inr c, tr'))"

section \<open>Notions the properties are stated with\<close>





text \<open>Reading a log: the requests sent, the requests settled, the rejections, in order.\<close>

fun sent :: "event list \<Rightarrow> request list" where
  "sent [] = []"
| "sent (Sent rq # evs) = rq # sent evs"
| "sent (Settled rq out # evs) = sent evs"

fun settled :: "event list \<Rightarrow> request list" where
  "settled [] = []"
| "settled (Sent rq # evs) = settled evs"
| "settled (Settled rq out # evs) = rq # settled evs"

fun failures :: "event list \<Rightarrow> error list" where
  "failures [] = []"
| "failures (Sent rq # evs) = failures evs"
| "failures (Settled rq (Inl err) # evs) = err # failures evs"
| "failures (Settled rq (Inr r) # evs) = failures evs"

text \<open>The number of requests in flight at the end of a log.\<close>

definition outstanding :: "event list \<Rightarrow> nat" where
  "outstanding evs = length (sent evs) - length (settled evs)"

text \<open>A log in which every request settles before the next one is sent.\<close>

fun one_at_a_time :: "event list \<Rightarrow> bool" where
  "one_at_a_time [] = True"
| "one_at_a_time (Sent rq # Settled rq' out # evs) = (rq' = rq \<and> one_at_a_time evs)"
| "one_at_a_time evs = False"

text \<open>Environments and a client for the examples.\<close>

definition db :: Client where
  "db = \<lparr>key = Some ''https://kv.example/db''\<rparr>"

definition ok_response :: "string \<Rightarrow> response" where
  "ok_response t = \<lparr>resp_status = 200, resp_text = Inr t\<rparr>"

text \<open>Every request is answered with the same status and body.\<close>

definition answering :: "nat \<Rightarrow> string \<Rightarrow> env" where
  "answering st t =
     \<lparr>respond = (\<lambda>tr rq. Inr \<lparr>resp_status = st, resp_text = Inr t\<rparr>), pick = (\<lambda>tr. 0)\<rparr>"

text \<open>
  Requests whose URL or body is in the list are rejected, the others answered with an
  empty body; of several requests in flight, the one at index \<open>i\<close> settles first.
\<close>

definition failing_on :: "string list \<Rightarrow> nat \<Rightarrow> env" where
  "failing_on bad i =
     \<lparr>respond = (\<lambda>tr rq.
        if req_url rq \<in> set bad \<or> (case req_body rq of None \<Rightarrow> False | Some b \<Rightarrow> b \<in> set bad)
        then Inl (TransportError ''connection refused'')
        else Inr (ok_response [])),
      pick = (\<lambda>tr. i)\<rparr>"



definition three :: "(string \<times> int json) list" where
  "three = [(''k1'', JNumber 1), (''k2'', JNumber 2), (''k3'', JNumber 3)]"


section \<open>Characters and numbers\<close>

lemma code_less_256: "code c < 256"
  by (simp add: code_def String.nat_of_char_less_256)











































lemma parse_not_valid: "JSON_parse ''{not valid}'' = None"
  by code_simp

lemma parse_null: "JSON_parse ''null'' = Some JNull"
  by code_simp

section \<open>The fuel of the parser\<close>

text \<open>
  More fuel never changes a result, and a text that can be parsed at all is parsed with
  a fuel of its length: JSON.parse fails only on a text that no fuel parses.
\<close>

lemmas parse_simps_del = parse_value.simps parse_elements.simps parse_members.simps

lemma parse_value_step:
  assumes el: "\<And>s x. parse_elements n s = Some x \<Longrightarrow> parse_elements (Suc n) s = Some x"
    and me: "\<And>s x. parse_members n s = Some x \<Longrightarrow> parse_members (Suc n) s = Some x"
    and a: "parse_value (Suc n) s = Some x"
  shows "parse_value (Suc (Suc n)) s = Some x"
proof (cases "skip_ws s")
  case Nil
  with a show ?thesis by simp
next
  case (Cons c r)
  note sk = Cons
  show ?thesis
  proof (cases "c = CHR ''[''")
    case True
    show ?thesis
    proof (cases "skip_ws r")
      case Nil
      with a sk True show ?thesis by simp
    next
      case (Cons c' r')
      show ?thesis
      proof (cases "c' = CHR '']''")
        case True
        with a sk \<open>c = CHR ''[''\<close> Cons show ?thesis by simp
      next
        case False
        with a sk \<open>c = CHR ''[''\<close> Cons obtain y where y: "parse_elements n r = Some y"
          by (cases "parse_elements n r") auto
        then have "parse_elements (Suc n) r = Some y" by (rule el)
        with y a sk \<open>c = CHR ''[''\<close> Cons False show ?thesis
          by (simp del: parse_elements.simps)
      qed
    qed
  next
    case False
    note nb = False
    show ?thesis
    proof (cases "c = CHR ''{''")
      case True
      show ?thesis
      proof (cases "skip_ws r")
        case Nil
        with a sk nb True show ?thesis by simp
      next
        case (Cons c' r')
        show ?thesis
        proof (cases "c' = CHR ''}''")
          case True
          with a sk nb \<open>c = CHR ''{''\<close> Cons show ?thesis by simp
        next
          case False
          with a sk nb \<open>c = CHR ''{''\<close> Cons obtain y where y: "parse_members n r = Some y"
            by (cases "parse_members n r") auto
          then have "parse_members (Suc n) r = Some y" by (rule me)
          with y a sk nb \<open>c = CHR ''{''\<close> Cons False show ?thesis
            by (simp del: parse_members.simps)
        qed
      qed
    next
      case False
      with a sk nb show ?thesis by simp
    qed
  qed
qed

lemma parse_elements_step:
  assumes va: "\<And>s x. parse_value (Suc n) s = Some x \<Longrightarrow> parse_value (Suc (Suc n)) s = Some x"
    and el: "\<And>s x. parse_elements n s = Some x \<Longrightarrow> parse_elements (Suc n) s = Some x"
    and a: "parse_elements (Suc n) s = Some x"
  shows "parse_elements (Suc (Suc n)) s = Some x"
proof -
  note unf = parse_elements.simps(2) [of "Suc n" s] parse_elements.simps(2) [of n s]
  from a obtain v r where pv: "parse_value (Suc n) s = Some (v, r)"
    by (cases "parse_value (Suc n) s") auto
  then have pv': "parse_value (Suc (Suc n)) s = Some (v, r)" by (rule va)
  show ?thesis
  proof (cases "skip_ws r")
    case Nil
    with a pv show ?thesis by simp
  next
    case (Cons c r')
    show ?thesis
    proof (cases "c = CHR '',''")
      case True
      with a pv Cons obtain y where y: "parse_elements n r' = Some y"
        by (cases "parse_elements n r'") (auto simp del: parse_simps_del simp: unf)
      then have "parse_elements (Suc n) r' = Some y" by (rule el)
      with y a pv pv' Cons True show ?thesis
        by (simp del: parse_simps_del add: unf)
    next
      case False
      with a pv pv' Cons show ?thesis
        by (simp del: parse_simps_del add: unf)
    qed
  qed
qed

lemma parse_members_step:
  assumes va: "\<And>s x. parse_value (Suc n) s = Some x \<Longrightarrow> parse_value (Suc (Suc n)) s = Some x"
    and me: "\<And>s x. parse_members n s = Some x \<Longrightarrow> parse_members (Suc n) s = Some x"
    and a: "parse_members (Suc n) s = Some x"
  shows "parse_members (Suc (Suc n)) s = Some x"
proof -
  note unf = parse_members.simps(2) [of "Suc n" s] parse_members.simps(2) [of n s]
  from a obtain q r0 where sk0: "skip_ws s = q # r0"
    by (cases "skip_ws s") auto
  with a have q: "q = dquote" by (auto split: if_splits)
  with a sk0 obtain k r1 where pc: "parse_chars r0 = Some (k, r1)"
    by (cases "parse_chars r0") auto
  with a sk0 q obtain c r2 where sk1: "skip_ws r1 = c # r2"
    by (cases "skip_ws r1") auto
  with a sk0 q pc have c: "c = CHR '':''" by (auto split: if_splits)
  with a sk0 q pc sk1 obtain v r3 where pv: "parse_value (Suc n) r2 = Some (v, r3)"
    by (cases "parse_value (Suc n) r2") (auto simp del: parse_simps_del simp: unf)
  then have pv': "parse_value (Suc (Suc n)) r2 = Some (v, r3)" by (rule va)
  from a sk0 q pc sk1 c pv obtain d r4 where sk3: "skip_ws r3 = d # r4"
    by (cases "skip_ws r3") (auto simp del: parse_simps_del simp: unf)
  show ?thesis
  proof (cases "d = CHR '',''")
    case True
    with a sk0 q pc sk1 c pv sk3 obtain y where y: "parse_members n r4 = Some y"
      by (cases "parse_members n r4") (auto simp del: parse_simps_del simp: unf)
    then have "parse_members (Suc n) r4 = Some y" by (rule me)
    with y a sk0 q pc sk1 c pv pv' sk3 True show ?thesis
      by (simp del: parse_simps_del add: unf)
  next
    case False
    with a sk0 q pc sk1 c pv pv' sk3 show ?thesis
      by (simp del: parse_simps_del add: unf)
  qed
qed

lemma parse_fuel_step:
  "(\<forall>s x. parse_value n s = Some x \<longrightarrow> parse_value (Suc n) s = Some x) \<and>
   (\<forall>s x. parse_elements n s = Some x \<longrightarrow> parse_elements (Suc n) s = Some x) \<and>
   (\<forall>s x. parse_members n s = Some x \<longrightarrow> parse_members (Suc n) s = Some x)"
proof (induction n)
  case 0
  show ?case by simp
next
  case (Suc n)
  have va: "parse_value (Suc (Suc n)) s = Some x" if "parse_value (Suc n) s = Some x" for s x
    using Suc that by (intro parse_value_step) blast+
  have "parse_elements (Suc (Suc n)) s = Some x" if "parse_elements (Suc n) s = Some x" for s x
    using Suc va that by (intro parse_elements_step) blast+
  moreover have "parse_members (Suc (Suc n)) s = Some x" if "parse_members (Suc n) s = Some x" for s x
    using Suc va that by (intro parse_members_step) blast+
  ultimately show ?case using va by blast
qed

lemma parse_value_mono:
  "parse_value n s = Some x \<Longrightarrow> n \<le> m \<Longrightarrow> parse_value m s = Some x"
proof (induction m)
  case 0
  then show ?case by simp
next
  case (Suc m)
  show ?case
  proof (cases "n = Suc m")
    case True
    with Suc.prems show ?thesis by simp
  next
    case False
    with Suc have "parse_value m s = Some x" by simp
    then show ?thesis using parse_fuel_step [of m] by blast
  qed
qed

lemma parse_elements_mono:
  "parse_elements n s = Some x \<Longrightarrow> n \<le> m \<Longrightarrow> parse_elements m s = Some x"
proof (induction m)
  case 0
  then show ?case by simp
next
  case (Suc m)
  show ?case
  proof (cases "n = Suc m")
    case True
    with Suc.prems show ?thesis by simp
  next
    case False
    with Suc have "parse_elements m s = Some x" by simp
    then show ?thesis using parse_fuel_step [of m] by blast
  qed
qed

lemma parse_members_mono:
  "parse_members n s = Some x \<Longrightarrow> n \<le> m \<Longrightarrow> parse_members m s = Some x"
proof (induction m)
  case 0
  then show ?case by simp
next
  case (Suc m)
  show ?case
  proof (cases "n = Suc m")
    case True
    with Suc.prems show ?thesis by simp
  next
    case False
    with Suc have "parse_members m s = Some x" by simp
    then show ?thesis using parse_fuel_step [of m] by blast
  qed
qed

lemma skip_ws_length: "skip_ws s = c # r \<Longrightarrow> length r < length s"
proof -
  assume "skip_ws s = c # r"
  then have "Suc (length r) = length (dropWhile is_ws s)" by (simp add: skip_ws_def)
  also have "\<dots> \<le> length s" by (rule length_dropWhile_le)
  finally show ?thesis by simp
qed

lemma parse_chars_length: "parse_chars s = Some (k, r) \<Longrightarrow> length r < length s"
proof (induction s arbitrary: k r rule: length_induct)
  case (1 s)
  note a = \<open>parse_chars s = Some (k, r)\<close>
  have ih: "length r' < length t" if "length t < length s" "parse_chars t = Some (k', r')"
    for t k' r'
    using 1(1) that by blast
  from a obtain c cs where s: "s = c # cs" by (cases s) auto
  show ?case
  proof (cases "c = dquote")
    case True
    with a s show ?thesis by simp
  next
    case False
    note nq = False
    show ?thesis
    proof (cases "c = backslash")
      case False
      with a s nq obtain k' where "parse_chars cs = Some (k', r)"
        by (auto split: if_splits)
      with ih [of cs k' r] s show ?thesis by simp
    next
      case True
      with a s nq obtain e r0 where cs: "cs = e # r0"
        by (cases cs) auto
      show ?thesis
      proof (cases "e = CHR ''u''")
        case True
        with a s nq \<open>c = backslash\<close> cs obtain a' b x y r' where r0: "r0 = a' # b # x # y # r'"
          by (auto split: list.splits)
        with a s nq \<open>c = backslash\<close> cs True obtain u where u: "hex4 a' b x y = Some u"
          by (cases "hex4 a' b x y") auto
        with a s nq \<open>c = backslash\<close> cs True r0 obtain k' where "parse_chars r' = Some (k', r)"
          by auto
        with ih [of r' k' r] s cs r0 show ?thesis by simp
      next
        case False
        with a s nq \<open>c = backslash\<close> cs obtain d where d: "simple_escape e = Some d"
          by (cases "simple_escape e") auto
        with a s nq \<open>c = backslash\<close> cs False obtain k' where "parse_chars r0 = Some (k', r)"
          by auto
        with ih [of r0 k' r] s cs show ?thesis by simp
      qed
    qed
  qed
qed

lemma int_part_length: "int_part s = Some (ip, r) \<Longrightarrow> length r < length s"
proof (cases s)
  case Nil
  assume "int_part s = Some (ip, r)"
  with Nil show ?thesis by (simp add: int_part_def)
next
  case (Cons c cs)
  assume a: "int_part s = Some (ip, r)"
  have "length (dropWhile is_digit cs) \<le> length cs" by (rule length_dropWhile_le)
  with a Cons show ?thesis
    by (auto simp: int_part_def split: if_splits)
qed

lemma frac_part_length: "frac_part s = Some (fd, r) \<Longrightarrow> length r \<le> length s"
proof (cases s)
  case Nil
  assume "frac_part s = Some (fd, r)"
  with Nil show ?thesis by (simp add: frac_part_def)
next
  case (Cons c cs)
  assume a: "frac_part s = Some (fd, r)"
  have "length (dropWhile is_digit cs) \<le> length cs" by (rule length_dropWhile_le)
  with a Cons show ?thesis
    by (auto simp: frac_part_def split: if_splits)
qed

lemma exp_part_length: "exp_part s = Some (ex, r) \<Longrightarrow> length r \<le> length s"
proof (cases s)
  case Nil
  assume "exp_part s = Some (ex, r)"
  with Nil show ?thesis by (simp add: exp_part_def)
next
  case (Cons c cs)
  assume a: "exp_part s = Some (ex, r)"
  obtain sg r1 where es: "exp_sign cs = (sg, r1)" by (cases "exp_sign cs")
  then have "length r1 \<le> length cs"
    by (cases cs) (auto simp: exp_sign_def split: if_splits)
  moreover have "length (dropWhile is_digit r1) \<le> length r1" by (rule length_dropWhile_le)
  ultimately show ?thesis
    using a Cons es by (auto simp: exp_part_def split: if_splits)
qed

lemma unsigned_number_length: "unsigned_number s = Some (x, r) \<Longrightarrow> length r < length s"
  by (auto simp: unsigned_number_def split: option.splits
      dest!: int_part_length frac_part_length exp_part_length)

lemma parse_number_length: "parse_number s = Some (x, r) \<Longrightarrow> length r < length s"
  by (cases s) (auto simp: parse_number_def split: if_splits dest!: unsigned_number_length)


lemma literal_length: "take n s = t \<Longrightarrow> t \<noteq> [] \<Longrightarrow> length (drop n s) < length s"
  by (cases n; cases s) auto

lemma parse_value_bound_step:
  assumes el: "\<And>s vs r. parse_elements n s = Some (vs, r) \<Longrightarrow>
      length r < length s \<and> parse_elements (length s - length r) s = Some (vs, r)"
    and me: "\<And>s ms r. parse_members n s = Some (ms, r) \<Longrightarrow>
      length r < length s \<and> parse_members (length s - length r) s = Some (ms, r)"
    and a: "parse_value (Suc n) s = Some (v, r)"
  shows "length r < length s \<and> parse_value (length s - length r) s = Some (v, r)"
proof -
  from a obtain c r0 where sk: "skip_ws s = c # r0"
    by (cases "skip_ws s") auto
  then have len0: "length r0 < length s" by (rule skip_ws_length)
  have fin: "length r < length s \<and> parse_value (length s - length r) s = Some (v, r)"
    if "length r < length s" and "\<And>k. length s - length r = Suc k \<Longrightarrow> parse_value (Suc k) s = Some (v, r)"
  proof -
    from that(1) obtain k where "length s - length r = Suc k"
      by (cases "length s - length r") auto
    with that show ?thesis by simp
  qed
  show ?thesis
  proof (cases "c = CHR ''[''")
    case True
    note br = True
    from a sk br obtain c' r' where sk2: "skip_ws r0 = c' # r'"
      by (cases "skip_ws r0") auto
    then have len1: "length r' < length r0" by (rule skip_ws_length)
    show ?thesis
    proof (cases "c' = CHR '']''")
      case True
      with a sk br sk2 have "r = r'" "v = JArray []" by simp_all
      with sk br sk2 True len0 len1 show ?thesis by (intro fin) simp_all
    next
      case False
      with a sk br sk2 obtain vs where pe: "parse_elements n r0 = Some (vs, r)" and v: "v = JArray vs"
        by (cases "parse_elements n r0") auto
      from el [OF pe] have l: "length r < length r0"
        and pe': "parse_elements (length r0 - length r) r0 = Some (vs, r)" by simp_all
      show ?thesis
      proof (intro fin)
        show "length r < length s" using l len0 by simp
      next
        fix k assume "length s - length r = Suc k"
        then have "length r0 - length r \<le> k" using len0 by simp
        with pe' have "parse_elements k r0 = Some (vs, r)" by (rule parse_elements_mono)
        with sk br sk2 False v show "parse_value (Suc k) s = Some (v, r)" by simp
      qed
    qed
  next
    case False
    note nb = False
    show ?thesis
    proof (cases "c = CHR ''{''")
      case True
      note br = True
      from a sk nb br obtain c' r' where sk2: "skip_ws r0 = c' # r'"
        by (cases "skip_ws r0") auto
      then have len1: "length r' < length r0" by (rule skip_ws_length)
      show ?thesis
      proof (cases "c' = CHR ''}''")
        case True
        with a sk nb br sk2 have "r = r'" "v = JObject []" by simp_all
        with sk nb br sk2 True len0 len1 show ?thesis by (intro fin) simp_all
      next
        case False
        with a sk nb br sk2 obtain ms where pe: "parse_members n r0 = Some (ms, r)"
          and v: "v = JObject (object_of ms)"
          by (cases "parse_members n r0") auto
        from me [OF pe] have l: "length r < length r0"
          and pe': "parse_members (length r0 - length r) r0 = Some (ms, r)" by simp_all
        show ?thesis
        proof (intro fin)
          show "length r < length s" using l len0 by simp
        next
          fix k assume "length s - length r = Suc k"
          then have "length r0 - length r \<le> k" using len0 by simp
          with pe' have "parse_members k r0 = Some (ms, r)" by (rule parse_members_mono)
          with sk nb br sk2 False v show "parse_value (Suc k) s = Some (v, r)" by simp
        qed
      qed
    next
      case False
      then have same: "parse_value (Suc k) s = parse_value (Suc n) s" for k
        using sk nb by simp
      have "length r < length (c # r0)"
        using a sk nb False
        by (auto split: if_splits dest: parse_chars_length parse_number_length literal_length)
      then have "length r < length s" using len0 by simp
      then show ?thesis using same a by (intro fin) simp_all
    qed
  qed
qed


lemma parse_elements_bound_step:
  assumes va: "\<And>s v r. parse_value (Suc n) s = Some (v, r) \<Longrightarrow>
      length r < length s \<and> parse_value (length s - length r) s = Some (v, r)"
    and el: "\<And>s vs r. parse_elements n s = Some (vs, r) \<Longrightarrow>
      length r < length s \<and> parse_elements (length s - length r) s = Some (vs, r)"
    and a: "parse_elements (Suc n) s = Some (vs, r)"
  shows "length r < length s \<and> parse_elements (length s - length r) s = Some (vs, r)"
proof -
  note unf = parse_elements.simps(2) [of n s]
  from a obtain v r1 where pv: "parse_value (Suc n) s = Some (v, r1)"
    by (cases "parse_value (Suc n) s") auto
  from va [OF pv] have l1: "length r1 < length s"
    and pv': "parse_value (length s - length r1) s = Some (v, r1)" by simp_all
  from a pv obtain c r2 where sk: "skip_ws r1 = c # r2"
    by (cases "skip_ws r1") (auto simp del: parse_simps_del simp: unf)
  then have l2: "length r2 < length r1" by (rule skip_ws_length)
  have fin: "length r < length s \<and> parse_elements (length s - length r) s = Some (vs, r)"
    if "length r \<le> length r2"
      and "\<And>k. length s - length r = Suc k \<Longrightarrow> parse_value (Suc k) s = Some (v, r1) \<Longrightarrow>
             parse_elements (Suc k) s = Some (vs, r)"
  proof -
    from that(1) l1 l2 obtain k where k: "length s - length r = Suc k"
      by (cases "length s - length r") auto
    then have "length s - length r1 \<le> Suc k" using that(1) l2 by simp
    with pv' have "parse_value (Suc k) s = Some (v, r1)" by (rule parse_value_mono)
    with that(2) [OF k] k that(1) l1 l2 show ?thesis by simp
  qed
  show ?thesis
  proof (cases "c = CHR '',''")
    case True
    with a pv sk obtain ws where pe: "parse_elements n r2 = Some (ws, r)" and vs: "vs = v # ws"
      by (cases "parse_elements n r2") (auto simp del: parse_simps_del simp: unf)
    from el [OF pe] have l: "length r < length r2"
      and pe': "parse_elements (length r2 - length r) r2 = Some (ws, r)" by simp_all
    show ?thesis
    proof (intro fin)
      show "length r \<le> length r2" using l by simp
    next
      fix k assume k: "length s - length r = Suc k" and pvk: "parse_value (Suc k) s = Some (v, r1)"
      have "length r2 - length r \<le> k" using k l1 l2 by simp
      with pe' have "parse_elements k r2 = Some (ws, r)" by (rule parse_elements_mono)
      with pvk sk True vs show "parse_elements (Suc k) s = Some (vs, r)"
        by (simp del: parse_simps_del add: parse_elements.simps(2) [of k s])
    qed
  next
    case False
    with a pv sk have r: "r = r2" and vs: "vs = [v]" and c: "c = CHR '']''"
      by (auto simp del: parse_simps_del simp: unf split: if_splits)
    show ?thesis
    proof (intro fin)
      show "length r \<le> length r2" using r by simp
    next
      fix k assume "parse_value (Suc k) s = Some (v, r1)"
      with sk False r vs c show "parse_elements (Suc k) s = Some (vs, r)"
        by (simp del: parse_simps_del add: parse_elements.simps(2) [of k s])
    qed
  qed
qed

lemma parse_members_bound_step:
  assumes va: "\<And>s v r. parse_value (Suc n) s = Some (v, r) \<Longrightarrow>
      length r < length s \<and> parse_value (length s - length r) s = Some (v, r)"
    and me: "\<And>s ms r. parse_members n s = Some (ms, r) \<Longrightarrow>
      length r < length s \<and> parse_members (length s - length r) s = Some (ms, r)"
    and a: "parse_members (Suc n) s = Some (ms, r)"
  shows "length r < length s \<and> parse_members (length s - length r) s = Some (ms, r)"
proof -
  note unf = parse_members.simps(2) [of n s]
  from a obtain q r0 where sk0: "skip_ws s = q # r0"
    by (cases "skip_ws s") auto
  with a have q: "q = dquote" by (auto split: if_splits)
  with a sk0 obtain k r1 where pc: "parse_chars r0 = Some (k, r1)"
    by (cases "parse_chars r0") auto
  with a sk0 q obtain c r2 where sk1: "skip_ws r1 = c # r2"
    by (cases "skip_ws r1") auto
  with a sk0 q pc have c: "c = CHR '':''" by (auto split: if_splits)
  with a sk0 q pc sk1 obtain v r3 where pv: "parse_value (Suc n) r2 = Some (v, r3)"
    by (cases "parse_value (Suc n) r2") (auto simp del: parse_simps_del simp: unf)
  from a sk0 q pc sk1 c pv obtain d r4 where sk3: "skip_ws r3 = d # r4"
    by (cases "skip_ws r3") (auto simp del: parse_simps_del simp: unf)
  from va [OF pv] have l3: "length r3 < length r2"
    and pv': "parse_value (length r2 - length r3) r2 = Some (v, r3)" by simp_all
  have l0: "length r0 < length s" using sk0 by (rule skip_ws_length)
  have l1: "length r1 < length r0" using pc by (rule parse_chars_length)
  have l2: "length r2 < length r1" using sk1 by (rule skip_ws_length)
  have l4: "length r4 < length r3" using sk3 by (rule skip_ws_length)
  have fin: "length r < length s \<and> parse_members (length s - length r) s = Some (ms, r)"
    if "length r \<le> length r4"
      and "\<And>j. length s - length r = Suc j \<Longrightarrow> parse_value (Suc j) r2 = Some (v, r3) \<Longrightarrow>
             parse_members (Suc j) s = Some (ms, r)"
  proof -
    from that(1) l0 l1 l2 l3 l4 obtain j where j: "length s - length r = Suc j"
      by (cases "length s - length r") auto
    then have "length r2 - length r3 \<le> Suc j" using that(1) l0 l1 l2 l3 l4 by simp
    with pv' have "parse_value (Suc j) r2 = Some (v, r3)" by (rule parse_value_mono)
    with that(2) [OF j] j that(1) l0 l1 l2 l3 l4 show ?thesis by simp
  qed
  show ?thesis
  proof (cases "d = CHR '',''")
    case True
    with a sk0 q pc sk1 c pv sk3 obtain ws where pe: "parse_members n r4 = Some (ws, r)"
      and ms: "ms = (k, v) # ws"
      by (cases "parse_members n r4") (auto simp del: parse_simps_del simp: unf)
    from me [OF pe] have l: "length r < length r4"
      and pe': "parse_members (length r4 - length r) r4 = Some (ws, r)" by simp_all
    show ?thesis
    proof (intro fin)
      show "length r \<le> length r4" using l by simp
    next
      fix j assume j: "length s - length r = Suc j" and pvj: "parse_value (Suc j) r2 = Some (v, r3)"
      have "length r4 - length r \<le> j" using j l0 l1 l2 l3 l4 by simp
      with pe' have "parse_members j r4 = Some (ws, r)" by (rule parse_members_mono)
      with pvj sk0 q pc sk1 c sk3 True ms show "parse_members (Suc j) s = Some (ms, r)"
        by (simp del: parse_simps_del add: parse_members.simps(2) [of j s])
    qed
  next
    case False
    with a sk0 q pc sk1 c pv sk3 have r: "r = r4" and ms: "ms = [(k, v)]" and d: "d = CHR ''}''"
      by (auto simp del: parse_simps_del simp: unf split: if_splits)
    show ?thesis
    proof (intro fin)
      show "length r \<le> length r4" using r by simp
    next
      fix j assume "parse_value (Suc j) r2 = Some (v, r3)"
      with sk0 q pc sk1 c sk3 False r ms d show "parse_members (Suc j) s = Some (ms, r)"
        by (simp del: parse_simps_del add: parse_members.simps(2) [of j s])
    qed
  qed
qed

lemma parse_fuel_bound:
  "(\<forall>s v r. parse_value n s = Some (v, r) \<longrightarrow>
      length r < length s \<and> parse_value (length s - length r) s = Some (v, r)) \<and>
   (\<forall>s vs r. parse_elements n s = Some (vs, r) \<longrightarrow>
      length r < length s \<and> parse_elements (length s - length r) s = Some (vs, r)) \<and>
   (\<forall>s ms r. parse_members n s = Some (ms, r) \<longrightarrow>
      length r < length s \<and> parse_members (length s - length r) s = Some (ms, r))"
proof (induction n)
  case 0
  show ?case by simp
next
  case (Suc n)
  from Suc have el: "length r < length s \<and> parse_elements (length s - length r) s = Some (vs, r)"
    if "parse_elements n s = Some (vs, r)" for s vs r
    using that by (elim conjE allE [of _ s] allE [of _ vs] allE [of _ r]) (erule (1) impE)
  from Suc have me: "length r < length s \<and> parse_members (length s - length r) s = Some (ms, r)"
    if "parse_members n s = Some (ms, r)" for s ms r
    using that by (elim conjE allE [of _ s] allE [of _ ms] allE [of _ r]) (erule (1) impE)
  have va: "length r < length s \<and> parse_value (length s - length r) s = Some (v, r)"
    if "parse_value (Suc n) s = Some (v, r)" for s v r
    using el me that by (rule parse_value_bound_step)
  have el': "length r < length s \<and> parse_elements (length s - length r) s = Some (vs, r)"
    if "parse_elements (Suc n) s = Some (vs, r)" for s vs r
    using va el that by (rule parse_elements_bound_step)
  have me': "length r < length s \<and> parse_members (length s - length r) s = Some (ms, r)"
    if "parse_members (Suc n) s = Some (ms, r)" for s ms r
    using va me that by (rule parse_members_bound_step)
  have "\<forall>s v r. parse_value (Suc n) s = Some (v, r) \<longrightarrow>
      length r < length s \<and> parse_value (length s - length r) s = Some (v, r)"
    by (intro allI impI) (erule va)
  moreover have "\<forall>s vs r. parse_elements (Suc n) s = Some (vs, r) \<longrightarrow>
      length r < length s \<and> parse_elements (length s - length r) s = Some (vs, r)"
    by (intro allI impI) (erule el')
  moreover have "\<forall>s ms r. parse_members (Suc n) s = Some (ms, r) \<longrightarrow>
      length r < length s \<and> parse_members (length s - length r) s = Some (ms, r)"
    by (intro allI impI) (erule me')
  ultimately show ?case by (intro conjI)
qed

lemma parse_value_fuel:
  assumes "parse_value n s = Some (v, r)"
  shows "parse_value (Suc (length s)) s = Some (v, r)"
proof -
  from parse_fuel_bound [of n]
  have "parse_value n s = Some (v, r) \<longrightarrow>
      length r < length s \<and> parse_value (length s - length r) s = Some (v, r)"
    by (elim conjE allE [of _ s] allE [of _ v] allE [of _ r])
  with assms have "parse_value (length s - length r) s = Some (v, r)" by simp
  then show ?thesis by (rule parse_value_mono) simp
qed

lemma JSON_parse_None:
  assumes "JSON_parse s = None" and "parse_value n s = Some (v, r)"
  shows "skip_ws r \<noteq> []"
proof
  assume "skip_ws r = []"
  moreover have "parse_value (Suc (length s)) s = Some (v, r)"
    using assms(2) by (rule parse_value_fuel)
  ultimately have "JSON_parse s = Some v"
    by (simp add: JSON_parse_def del: parse_simps_del)
  with assms(1) show False by simp
qed

lemma JSON_parse_adequate:
  "JSON_parse s = Some v \<longleftrightarrow> (\<exists>n r. parse_value n s = Some (v, r) \<and> skip_ws r = [])"
proof
  assume "JSON_parse s = Some v"
  then obtain r where "parse_value (Suc (length s)) s = Some (v, r)" and "skip_ws r = []"
    by (auto simp: JSON_parse_def simp del: parse_simps_del split: option.splits if_splits)
  then show "\<exists>n r. parse_value n s = Some (v, r) \<and> skip_ws r = []"
    by blast
next
  assume "\<exists>n r. parse_value n s = Some (v, r) \<and> skip_ws r = []"
  then obtain n r where pv: "parse_value n s = Some (v, r)" and r: "skip_ws r = []" by blast
  from pv have "parse_value (Suc (length s)) s = Some (v, r)" by (rule parse_value_fuel)
  with r show "JSON_parse s = Some v"
    by (simp add: JSON_parse_def del: parse_simps_del)
qed

section \<open>Facts about the transport\<close>

lemma fetch_result: "fst (fetch e rq tr) = respond e (tr @ [Sent rq]) rq"
  by (simp add: fetch_def Let_def)

lemma fetch_log:
  "snd (fetch e rq tr) = tr @ [Sent rq, Settled rq (respond e (tr @ [Sent rq]) rq)]"
  by (simp add: fetch_def Let_def)

lemma get_fulfilled:
  assumes "respond e (tr @ [Sent (get_request c k)]) (get_request c k) = Inr r"
    and "resp_text r = Inr t"
  shows "fst (get e c k opts tr) = get_then k opts t"
  using assms by (simp add: get_def fetch_def Let_def)

section \<open>The codec\<close>



text \<open>
  C4. When the body fetched for a key is not empty and JSON.parse rejects it, a \<open>get\<close>
  that is not raw fails with a SyntaxError whose message names the key and points to the
  raw option, and a raw \<open>get\<close> returns the body as it is.
\<close>

theorem get_decode_error:
  assumes "respond e (tr @ [Sent (get_request c k)]) (get_request c k) = Inr r"
    and "resp_text r = Inr t" and "t \<noteq> []" and "JSON_parse t = None"
  shows "(\<not> raw_mode opts \<longrightarrow>
            fst (get e c k opts tr) =
              Inl (SyntaxError (''Failed to parse value of '' @ k @
                     '', try passing a raw option to get the raw value''))) \<and>
         (raw_mode opts \<longrightarrow> fst (get e c k opts tr) = Inr (JString t))"
  using assms by (simp add: get_fulfilled get_then_def parse_failure_def)

theorem get_decode_error_witness:
  "JSON_parse ''{not valid}'' = None \<and>
   fst (get (answering 200 ''{not valid}'') db ''cfg'' None []) =
     Inl (SyntaxError ''Failed to parse value of cfg, try passing a raw option to get the raw value'') \<and>
   fst (get (answering 200 ''{not valid}'') db ''cfg'' (Some \<lparr>raw = Some True\<rparr>) []) =
     Inr (JString ''{not valid}'')"
  using get_decode_error [of "answering 200 ''{not valid}''" "[]" db "''cfg''"
      "ok_response ''{not valid}''" "''{not valid}''" None]
    get_decode_error [of "answering 200 ''{not valid}''" "[]" db "''cfg''"
      "ok_response ''{not valid}''" "''{not valid}''" "Some \<lparr>raw = Some True\<rparr>"]
    parse_not_valid
  by (simp add: answering_def ok_response_def raw_mode_def)

text \<open>
  C5. When the body fetched for a key is the empty string, \<open>get\<close> returns null if it is
  not raw and the empty string if it is raw; a body that JSON.parse reads as null is
  returned as null by a \<open>get\<close> that is not raw.
\<close>

theorem get_absent_normalization:
  assumes "respond e (tr @ [Sent (get_request c k)]) (get_request c k) = Inr r"
  shows "(resp_text r = Inr [] \<longrightarrow>
           (\<not> raw_mode opts \<longrightarrow> fst (get e c k opts tr) = Inr JNull) \<and>
           (raw_mode opts \<longrightarrow> fst (get e c k opts tr) = Inr (JString []))) \<and>
         (\<forall>t. resp_text r = Inr t \<and> JSON_parse t = Some JNull \<and> \<not> raw_mode opts \<longrightarrow>
           fst (get e c k opts tr) = Inr JNull)"
  using assms by (auto simp: get_fulfilled get_then_def)

theorem get_absent_normalization_witness:
  "fst (get (answering 200 []) db ''k'' None []) = Inr JNull \<and>
   fst (get (answering 200 []) db ''k'' (Some \<lparr>raw = Some True\<rparr>) []) = Inr (JString []) \<and>
   fst (get (answering 200 ''null'') db ''k'' None []) = Inr JNull"
  using get_absent_normalization [of "answering 200 []" "[]" db "''k''" "ok_response []" None]
    get_absent_normalization [of "answering 200 []" "[]" db "''k''" "ok_response []"
      "Some \<lparr>raw = Some True\<rparr>"]
    get_absent_normalization [of "answering 200 ''null''" "[]" db "''k''" "ok_response ''null''" None]
    parse_null
  by (simp add: answering_def ok_response_def raw_mode_def)

section \<open>Construction\<close>

text \<open>
  C8, as the code has it. The endpoint of the client is the argument when one is given
  and is not empty, and otherwise whatever the variable REPLIT_DB_URL holds, which is
  nothing when the variable is absent. Construction never fails.
\<close>

theorem constructor_endpoint:
  "key (constructor k vars) = (if k \<noteq> None \<and> k \<noteq> Some [] then k else vars ''REPLIT_DB_URL'')"
  by (simp add: constructor_def)

text \<open>
  With no argument and no variable, construction returns a client whose endpoint is
  undefined; its requests go to URLs that start with the text \<open>undefined\<close>.
\<close>

theorem constructor_without_endpoint_counterexample:
  "key (constructor None Map.empty) = None \<and>
   req_url (get_request (constructor None Map.empty) ''k'') = ''undefined/k''"
  by (simp add: constructor_def get_request_def endpoint_def)



lemma set_key_log:
  "snd (set_key e c k v tr) =
     tr @ [Sent (set_request c k v),
           Settled (set_request c k v) (respond e (tr @ [Sent (set_request c k v)]) (set_request c k v))]"
  by (simp add: set_key_def fetch_def Let_def split: sum.splits)


lemma delete_log:
  "snd (delete e c k tr) =
     tr @ [Sent (delete_request c k),
           Settled (delete_request c k) (respond e (tr @ [Sent (delete_request c k)]) (delete_request c k))]"
  by (simp add: delete_def fetch_def Let_def)

section \<open>set, delete and the status of the response\<close>



text \<open>
  C3, on the key \<open>k\<close> and the string \<open>a&b\<close>: \<open>set\<close> sends one POST to the endpoint, and
  its body is the key, an equals sign and the JSON text as it is, with its quotes and its
  ampersand; the form-encoded JSON text would be \<open>%22a%26b%22\<close>.
\<close>
theorem set_body_not_form_encoded:
  "sent (snd (set_key (answering 200 []) db ''k'' (JString ''a&b'') [])) =
     [set_request db ''k'' (JString ''a&b'')] \<and>
   req_method (set_request db ''k'' (JString ''a&b'')) = POST \<and>
   req_url (set_request db ''k'' (JString ''a&b'')) = ''https://kv.example/db'' \<and>
   req_body (set_request db ''k'' (JString ''a&b'')) = Some (''k='' @ dquote # ''a&b'' @ [dquote]) \<and>
   encodeURIComponent (JSON_stringify (JString ''a&b'')) = ''%22a%26b%22''"
  by (simp add: set_key_log set_request_def endpoint_def db_def QuoteJSONString_def escape_char_def
      encodeURIComponent_def encode_char_def uri_unreserved_def hex_digits_upper_def
      dquote_def backslash_def code_def)

section \<open>list\<close>













section \<open>Logs\<close>

lemma sent_append: "sent (xs @ ys) = sent xs @ sent ys"
  by (induction xs rule: sent.induct) auto

lemma settled_append: "settled (xs @ ys) = settled xs @ settled ys"
  by (induction xs rule: settled.induct) auto

lemma failures_append: "failures (xs @ ys) = failures xs @ failures ys"
  by (induction xs rule: failures.induct) auto

lemma sent_map_Sent: "sent (map Sent rqs) = rqs"
  by (induction rqs) auto

lemma settled_map_Sent: "settled (map Sent rqs) = []"
  by (induction rqs) auto

section \<open>setAll\<close>

text \<open>
  C6. What \<open>setAll\<close> adds to the log is, for some \<open>m\<close>, the requests of \<open>set\<close> for the first
  \<open>m\<close> entries of the object, in order, each settled before the next is sent, and
  nothing else. When it returns the client, \<open>m\<close> is the number of entries and no request
  was rejected. When it fails, the rejection of the request of entry \<open>m\<close> is the last
  event, it is the error returned, and no request before it was rejected: no later
  entry is attempted and nothing is sent to undo the earlier ones.
\<close>
theorem setAll_sequential:
  "\<exists>m added. m \<le> length obj \<and> snd (setAll e c obj tr) = tr @ added \<and>
     one_at_a_time added \<and>
     sent added = map (\<lambda>(k, v). set_request c k v) (take m obj) \<and>
     (case fst (setAll e c obj tr) of
        Inr c' \<Rightarrow> c' = c \<and> m = length obj \<and> failures added = []
      | Inl err \<Rightarrow>
          0 < m \<and> failures (butlast added) = [] \<and>
          last added = Settled (case obj ! (m - 1) of (k, v) \<Rightarrow> set_request c k v) (Inl err))"
proof (induction obj arbitrary: tr)
  case Nil
  show ?case by (rule exI [of _ 0], rule exI [of _ "[]"]) simp
next
  case (Cons p obj)
  obtain k v where p: "p = (k, v)" by (cases p)
  let ?rq = "set_request c k v"
  let ?out = "respond e (tr @ [Sent ?rq]) ?rq"
  let ?tr1 = "tr @ [Sent ?rq, Settled ?rq ?out]"
  have step: "set_key e c k v tr = (case ?out of Inl err \<Rightarrow> Inl err | Inr r \<Rightarrow> Inr c, ?tr1)"
    by (simp add: set_key_def fetch_def Let_def split: sum.splits)
  show ?case
  proof (cases ?out)
    case (Inl err)
    then have "setAll e c (p # obj) tr = (Inl err, ?tr1)"
      using step p by simp
    then show ?thesis
      using Inl p by (intro exI [of _ 1] exI [of _ "[Sent ?rq, Settled ?rq ?out]"]) simp
  next
    case (Inr r)
    then have run: "setAll e c (p # obj) tr = setAll e c obj ?tr1"
      using step p by simp
    from Cons.IH [of ?tr1] obtain m added where
      m: "m \<le> length obj" and
      log: "snd (setAll e c obj ?tr1) = ?tr1 @ added" and
      seq: "one_at_a_time added" and
      snt: "sent added = map (\<lambda>(k, v). set_request c k v) (take m obj)" and
      res: "(case fst (setAll e c obj ?tr1) of
              Inr c' \<Rightarrow> c' = c \<and> m = length obj \<and> failures added = []
            | Inl err \<Rightarrow>
                0 < m \<and> failures (butlast added) = [] \<and>
                last added = Settled (case obj ! (m - 1) of (k, v) \<Rightarrow> set_request c k v) (Inl err))"
      by blast
    let ?added = "[Sent ?rq, Settled ?rq ?out] @ added"
    have "Suc m \<le> length (p # obj)" using m by simp
    moreover have "snd (setAll e c (p # obj) tr) = tr @ ?added" using run log by simp
    moreover have "one_at_a_time ?added" using seq by simp
    moreover have "sent ?added = map (\<lambda>(k, v). set_request c k v) (take (Suc m) (p # obj))"
      using snt p by simp
    moreover have "(case fst (setAll e c (p # obj) tr) of
              Inr c' \<Rightarrow> c' = c \<and> Suc m = length (p # obj) \<and> failures ?added = []
            | Inl err \<Rightarrow>
                0 < Suc m \<and> failures (butlast ?added) = [] \<and>
                last ?added =
                  Settled (case (p # obj) ! (Suc m - 1) of (k, v) \<Rightarrow> set_request c k v) (Inl err))"
    proof (cases "fst (setAll e c obj ?tr1)")
      case (Inl err)
      with res have pos: "0 < m" and nofail: "failures (butlast added) = []"
        and lst: "last added = Settled (case obj ! (m - 1) of (k, v) \<Rightarrow> set_request c k v) (Inl err)"
        by simp_all
      have ne: "added \<noteq> []"
        using snt pos m by (cases obj) auto
      have "(p # obj) ! (Suc m - 1) = obj ! (m - 1)" using pos by (cases m) simp_all
      moreover have "failures (butlast ?added) = []"
        using ne nofail Inr by (simp add: butlast_append)
      ultimately show ?thesis using Inl run lst ne by simp
    next
      case (Inr c')
      with res run show ?thesis using \<open>?out = Inr r\<close> by simp
    qed
    ultimately show ?thesis by blast
  qed
qed


theorem setAll_sequential_witness:
  "fst (setAll (failing_on [''k2=2''] 0) db three []) = Inl (TransportError ''connection refused'') \<and>
   snd (setAll (failing_on [''k2=2''] 0) db three []) =
     [Sent (set_request db ''k1'' (JNumber 1)),
      Settled (set_request db ''k1'' (JNumber 1)) (Inr (ok_response [])),
      Sent (set_request db ''k2'' (JNumber 2)),
      Settled (set_request db ''k2'' (JNumber 2)) (Inl (TransportError ''connection refused''))] \<and>
   (\<exists>m added. m \<le> length three \<and>
      snd (setAll (failing_on [''k2=2''] 0) db three []) = [] @ added \<and>
      sent added = map (\<lambda>(k, v). set_request db k v) (take m three))"
proof -
  have u: "req_url (set_request db k v) = ''https://kv.example/db''" for k v
    by (simp add: set_request_def endpoint_def db_def)
  have b1: "req_body (set_request db ''k1'' (JNumber 1)) = Some ''k1=1''"
    and b2: "req_body (set_request db ''k2'' (JNumber 2)) = Some ''k2=2''"
    by code_simp+
  have "fst (setAll (failing_on [''k2=2''] 0) db three []) = Inl (TransportError ''connection refused'')"
    and "snd (setAll (failing_on [''k2=2''] 0) db three []) =
     [Sent (set_request db ''k1'' (JNumber 1)),
      Settled (set_request db ''k1'' (JNumber 1)) (Inr (ok_response [])),
      Sent (set_request db ''k2'' (JNumber 2)),
      Settled (set_request db ''k2'' (JNumber 2)) (Inl (TransportError ''connection refused''))]"
    by (simp_all add: three_def set_key_def fetch_def Let_def failing_on_def b1 b2 u)
  then show ?thesis
    using setAll_sequential [of three "failing_on [''k2=2''] 0" db "[]"] by auto
qed

section \<open>getAll\<close>












section \<open>Promise.all\<close>

lemma mset_without_nth:
  "i < length xs \<Longrightarrow> mset xs = add_mset (xs ! i) (mset (take i xs @ drop (Suc i) xs))"
proof -
  assume "i < length xs"
  then have "xs = take i xs @ xs ! i # drop (Suc i) xs" by (rule id_take_nth_drop)
  then have "mset xs = mset (take i xs @ xs ! i # drop (Suc i) xs)" by simp
  then show ?thesis by simp
qed

lemma Promise_all_shape:
  "\<exists>st. snd (Promise_all e c ps tr) = tr @ st \<and> sent st = [] \<and>
        mset (settled st) \<subseteq># mset ps \<and>
        (case fst (Promise_all e c ps tr) of
           Inr u \<Rightarrow> mset (settled st) = mset ps \<and> failures st = []
         | Inl err \<Rightarrow>
             st \<noteq> [] \<and> failures (butlast st) = [] \<and> (\<exists>rq. last st = Settled rq (Inl err)))"
proof (induction n \<equiv> "length ps" arbitrary: ps tr)
  case 0
  then show ?case by simp
next
  case (Suc n)
  then obtain p qs where ps: "ps = p # qs" by (cases ps) auto
  define i where "i = pick e tr mod length ps"
  define rq where "rq = ps ! i"
  define out where "out = respond e tr rq"
  define ps' where "ps' = take i ps @ drop (Suc i) ps"
  have i: "i < length ps" using ps by (simp add: i_def)
  have fail: "Promise_all e c ps tr = (Inl err, tr @ [Settled rq (Inl err)])"
    if "out = Inl err" for err
    using that by (simp add: ps'_def rq_def out_def i_def ps Let_def delete_result_def)
  have ok: "Promise_all e c ps tr = Promise_all e c ps' (tr @ [Settled rq (Inr r)])"
    if "out = Inr r" for r
    using that by (simp add: ps'_def rq_def out_def i_def ps Let_def delete_result_def)
  have ms: "mset ps = add_mset rq (mset ps')"
    unfolding rq_def ps'_def using i by (rule mset_without_nth)
  show ?case
  proof (cases out)
    case (Inl err)
    then have "Promise_all e c ps tr = (Inl err, tr @ [Settled rq (Inl err)])"
      by (rule fail)
    then show ?thesis
      using ms by (intro exI [of _ "[Settled rq (Inl err)]"]) simp
  next
    case (Inr r)
    then have run: "Promise_all e c ps tr = Promise_all e c ps' (tr @ [Settled rq (Inr r)])"
      by (rule ok)
    have "n = length ps'" using Suc.hyps(2) i by (simp add: ps'_def)
    from Suc.hyps(1) [OF this, of "tr @ [Settled rq (Inr r)]"] obtain st where
      log: "snd (Promise_all e c ps' (tr @ [Settled rq (Inr r)])) = (tr @ [Settled rq (Inr r)]) @ st"
      and snt: "sent st = []" and sub: "mset (settled st) \<subseteq># mset ps'"
      and res: "(case fst (Promise_all e c ps' (tr @ [Settled rq (Inr r)])) of
           Inr u \<Rightarrow> mset (settled st) = mset ps' \<and> failures st = []
         | Inl err \<Rightarrow>
             st \<noteq> [] \<and> failures (butlast st) = [] \<and> (\<exists>rq. last st = Settled rq (Inl err)))"
      by blast
    let ?st = "Settled rq (Inr r) # st"
    have "snd (Promise_all e c ps tr) = tr @ ?st" using run log by simp
    moreover have "sent ?st = []" using snt by simp
    moreover have "mset (settled ?st) \<subseteq># mset ps" using sub ms by simp
    moreover have "(case fst (Promise_all e c ps tr) of
           Inr u \<Rightarrow> mset (settled ?st) = mset ps \<and> failures ?st = []
         | Inl err \<Rightarrow>
             ?st \<noteq> [] \<and> failures (butlast ?st) = [] \<and> (\<exists>rq. last ?st = Settled rq (Inl err)))"
      using res run ms by (auto split: sum.splits)
    ultimately show ?thesis by blast
  qed
qed


lemma deleteMultiple_snd:
  "snd (deleteMultiple e c args tr) =
     snd (Promise_all e c (map (delete_request c) args)
            (tr @ map (\<lambda>arg. Sent (delete_request c arg)) args))"
  by (cases "Promise_all e c (map (delete_request c) args)
            (tr @ map (\<lambda>arg. Sent (delete_request c arg)) args)")
    (simp add: deleteMultiple_def split: sum.splits)

lemma deleteMultiple_fst:
  "fst (deleteMultiple e c args tr) =
     (case fst (Promise_all e c (map (delete_request c) args)
                  (tr @ map (\<lambda>arg. Sent (delete_request c arg)) args)) of
        Inl err \<Rightarrow> Inl err | Inr u \<Rightarrow> Inr c)"
  by (cases "Promise_all e c (map (delete_request c) args)
            (tr @ map (\<lambda>arg. Sent (delete_request c arg)) args)")
    (simp add: deleteMultiple_def split: sum.splits)

lemma empty_is_deleteMultiple:
  assumes "fst (list e c [] tr) = Inr keys"
  shows "empty e c tr = deleteMultiple e c keys (snd (list e c [] tr))"
proof -
  obtain tr1 where "list e c [] tr = (Inr keys, tr1)"
    using assms by (cases "list e c [] tr") auto
  then show ?thesis by (simp add: empty_def deleteMultiple_def)
qed

text \<open>
  C2, as the code has it. \<open>deleteMultiple\<close> sends the request of a \<open>delete\<close> for every
  key, in order, before it observes any settlement; then settlements follow, each of a
  request that was sent and none twice. When it returns the client, every request has
  been fulfilled. When it fails, the rejection it returns is the last event and the
  first rejection: it returns as soon as one request is rejected, whatever is still in
  flight. \<open>empty\<close> is \<open>deleteMultiple\<close> on the keys that \<open>list\<close> returned.
\<close>
theorem fan_out_deletes:
  "(\<exists>st. snd (deleteMultiple e c args tr) =
           tr @ map (\<lambda>arg. Sent (delete_request c arg)) args @ st \<and>
         sent st = [] \<and> mset (settled st) \<subseteq># mset (map (delete_request c) args) \<and>
         (case fst (deleteMultiple e c args tr) of
            Inr c' \<Rightarrow>
              c' = c \<and> mset (settled st) = mset (map (delete_request c) args) \<and> failures st = []
          | Inl err \<Rightarrow>
              st \<noteq> [] \<and> failures (butlast st) = [] \<and> (\<exists>rq. last st = Settled rq (Inl err)))) \<and>
   (\<forall>keys. fst (list e c [] tr) = Inr keys \<longrightarrow>
      empty e c tr = deleteMultiple e c keys (snd (list e c [] tr)))"
proof
  let ?ps = "map (delete_request c) args"
  let ?tr1 = "tr @ map (\<lambda>arg. Sent (delete_request c arg)) args"
  obtain st where
    log: "snd (Promise_all e c ?ps ?tr1) = ?tr1 @ st" and snt: "sent st = []"
    and sub: "mset (settled st) \<subseteq># mset ?ps"
    and res: "(case fst (Promise_all e c ?ps ?tr1) of
           Inr u \<Rightarrow> mset (settled st) = mset ?ps \<and> failures st = []
         | Inl err \<Rightarrow>
             st \<noteq> [] \<and> failures (butlast st) = [] \<and> (\<exists>rq. last st = Settled rq (Inl err)))"
    using Promise_all_shape [of e c ?ps ?tr1] by blast
  have "snd (deleteMultiple e c args tr) = tr @ map (\<lambda>arg. Sent (delete_request c arg)) args @ st"
    using log by (simp add: deleteMultiple_snd)
  moreover have "(case fst (deleteMultiple e c args tr) of
            Inr c' \<Rightarrow> c' = c \<and> mset (settled st) = mset ?ps \<and> failures st = []
          | Inl err \<Rightarrow>
              st \<noteq> [] \<and> failures (butlast st) = [] \<and> (\<exists>rq. last st = Settled rq (Inl err)))"
    using res by (simp add: deleteMultiple_fst split: sum.splits)
  ultimately show "\<exists>st. snd (deleteMultiple e c args tr) =
           tr @ map (\<lambda>arg. Sent (delete_request c arg)) args @ st \<and>
         sent st = [] \<and> mset (settled st) \<subseteq># mset ?ps \<and>
         (case fst (deleteMultiple e c args tr) of
            Inr c' \<Rightarrow> c' = c \<and> mset (settled st) = mset ?ps \<and> failures st = []
          | Inl err \<Rightarrow>
              st \<noteq> [] \<and> failures (butlast st) = [] \<and> (\<exists>rq. last st = Settled rq (Inl err)))"
    using snt sub by blast
next
  show "\<forall>keys. fst (list e c [] tr) = Inr keys \<longrightarrow>
      empty e c tr = deleteMultiple e c keys (snd (list e c [] tr))"
    using empty_is_deleteMultiple by blast
qed

lemma listed_keys: "fst (list (answering 200 ''k1\<newline>k2'') db [] []) = Inr [''k1'', ''k2'']"
  by code_simp

lemma emptied: "fst (empty (answering 200 ''k1\<newline>k2'') db []) = Inr db"
  by code_simp

theorem fan_out_deletes_witness:
  "fst (list (answering 200 ''k1\<newline>k2'') db [] []) = Inr [''k1'', ''k2''] \<and>
   empty (answering 200 ''k1\<newline>k2'') db [] =
     deleteMultiple (answering 200 ''k1\<newline>k2'') db [''k1'', ''k2'']
       (snd (list (answering 200 ''k1\<newline>k2'') db [] [])) \<and>
   fst (empty (answering 200 ''k1\<newline>k2'') db []) = Inr db"
  using fan_out_deletes [of "answering 200 ''k1\<newline>k2''" db "[]" "[]"] listed_keys emptied
  by simp

text \<open>
  Three keys, the request for the second is rejected and settles first: the failure is
  returned while the requests for the first and the third are still in flight.
\<close>

theorem deleteMultiple_surfaces_early_counterexample:
  "fst (deleteMultiple (failing_on [''https://kv.example/db/k2''] 1) db [''k1'', ''k2'', ''k3''] []) =
     Inl (TransportError ''connection refused'') \<and>
   snd (deleteMultiple (failing_on [''https://kv.example/db/k2''] 1) db [''k1'', ''k2'', ''k3''] []) =
     [Sent (delete_request db ''k1''), Sent (delete_request db ''k2''), Sent (delete_request db ''k3''),
      Settled (delete_request db ''k2'') (Inl (TransportError ''connection refused''))] \<and>
   outstanding
     (snd (deleteMultiple (failing_on [''https://kv.example/db/k2''] 1) db [''k1'', ''k2'', ''k3''] [])) = 2"
  by (simp add: deleteMultiple_def failing_on_def Let_def delete_request_def endpoint_def db_def
      delete_result_def outstanding_def)

end
